theory Spec2Isabelle
  imports Complex_Main
begin

section \<open>The index of keywords in parallel sentences (index_parasentences.py)\<close>

text \<open>
  A Python string is a sequence of Unicode code points; a code point is a natural number.
  Line identifiers and occurrence counts are Python integers that start at 0 or 1 and are
  only ever incremented, so they are natural numbers. The configuration values
  \<open>max_words\<close>, \<open>max_ngram\<close> and \<open>max_samples\<close> come from \<open>int(...)\<close> of a command
  flag and are integers of either sign.
\<close>

type_synonym ustring = "nat list"

abbreviation ustr :: "string \<Rightarrow> ustring" where
  "ustr s \<equiv> map of_char s"

subsection \<open>The reservoir of sample ids (ProcessRecords, lines 197 to 209)\<close>

text \<open>
  A record of \<open>word_index\<close> is the Python list \<open>[count, id_1, ..., id_k]\<close>: slot 0 holds the
  number of occurrences, the other slots hold the sampled line ids.

  \<open>random.Random.randint(1, n)\<close> is \<open>1 + _randbelow(n)\<close> in the standard library, where
  \<open>_randbelow\<close> returns a non-negative integer and advances the generator. The generator
  is not part of the repository: its state type \<open>'g\<close> and its \<open>randbelow\<close> are parameters.
\<close>

type_synonym 'g randbelow = "'g \<Rightarrow> nat \<Rightarrow> nat \<times> 'g"

definition count_of :: "nat list \<Rightarrow> nat" where
  "count_of old_record = hd old_record"

definition samples_of :: "nat list \<Rightarrow> nat list" where
  "samples_of old_record = tl old_record"

definition randint1 :: "'g randbelow \<Rightarrow> 'g \<Rightarrow> nat \<Rightarrow> nat \<times> 'g" where
  "randint1 randbelow g n = (let (v, g') = randbelow g n in (1 + v, g'))"

text \<open>
  The body of the loop over the phrases of one line. \<open>if old_record:\<close> is the truth value
  of a list: an absent key and an empty list both take the \<open>else\<close> branch. The index
  \<open>rnd_value\<close> written to is at least 1 and below \<open>max_samples\<close>, which is below the
  length of the record in that branch, so the assignment is always in range.
\<close>

definition Update ::
  "'g randbelow \<Rightarrow> int \<Rightarrow> (ustring \<rightharpoonup> nat list) \<times> 'g \<Rightarrow> ustring \<Rightarrow> nat
     \<Rightarrow> (ustring \<rightharpoonup> nat list) \<times> 'g" where
  "Update randbelow max_samples st phrase num_lines =
     (let (word_index, rnd) = st in
      case word_index phrase of
        None \<Rightarrow> (word_index(phrase \<mapsto> [1, num_lines]), rnd)
      | Some [] \<Rightarrow> (word_index(phrase \<mapsto> [1, num_lines]), rnd)
      | Some (c # ids) \<Rightarrow>
          (let old_record = c # ids;
               num_samples = c + 1
           in if int (length old_record) \<le> max_samples
              then (word_index(phrase \<mapsto> (old_record @ [num_lines])[0 := num_samples]), rnd)
              else (let (rnd_value, rnd') = randint1 randbelow rnd num_samples
                    in if int rnd_value < max_samples
                       then (word_index(phrase \<mapsto>
                               (old_record[rnd_value := num_lines])[0 := num_samples]), rnd')
                       else (word_index(phrase \<mapsto> old_record[0 := num_samples]), rnd'))))"

text \<open>A run of updates, as the loops over lines and phrases perform them one after another.\<close>

fun Updates ::
  "'g randbelow \<Rightarrow> int \<Rightarrow> (ustring \<rightharpoonup> nat list) \<times> 'g \<Rightarrow> (ustring \<times> nat) list
     \<Rightarrow> (ustring \<rightharpoonup> nat list) \<times> 'g" where
  "Updates randbelow max_samples st [] = st"
| "Updates randbelow max_samples st ((phrase, num_lines) # us) =
     Updates randbelow max_samples (Update randbelow max_samples st phrase num_lines) us"

text \<open>The line ids a phrase was updated with, in order.\<close>

definition occurrences :: "ustring \<Rightarrow> (ustring \<times> nat) list \<Rightarrow> nat list" where
  "occurrences phrase us = map snd (filter (\<lambda>u. fst u = phrase) us)"

text \<open>
  A generator for concrete runs: it replays a tape of raw values, each reduced into the
  range asked for. It stands for any deterministic generator.
\<close>

fun tape_randbelow :: "nat list randbelow" where
  "tape_randbelow [] n = (0, [])"
| "tape_randbelow (v # tape) n = (v mod n, tape)"


subsection \<open>Python strings\<close>

text \<open>
  \<open>str.strip()\<close> removes leading and trailing white space, the characters for which
  \<open>str.isspace\<close> holds.
\<close>

definition isspace :: "nat \<Rightarrow> bool" where
  "isspace c \<longleftrightarrow>
     (0x09 \<le> c \<and> c \<le> 0x0D) \<or> (0x1C \<le> c \<and> c \<le> 0x20) \<or> c = 0x85 \<or> c = 0xA0 \<or>
     c = 0x1680 \<or> (0x2000 \<le> c \<and> c \<le> 0x200A) \<or> c = 0x2028 \<or> c = 0x2029 \<or>
     c = 0x202F \<or> c = 0x205F \<or> c = 0x3000"

definition strip :: "ustring \<Rightarrow> ustring" where
  "strip s = rev (dropWhile isspace (rev (dropWhile isspace s)))"

text \<open>\<open>s.split(sep)\<close> for a separator of one character: one more field than separators.\<close>

fun split_on :: "nat \<Rightarrow> ustring \<Rightarrow> ustring list" where
  "split_on sep [] = [[]]"
| "split_on sep (c # cs) =
     (if c = sep then [] # split_on sep cs
      else (case split_on sep cs of [] \<Rightarrow> [[c]] | w # ws \<Rightarrow> (c # w) # ws))"

fun join :: "ustring \<Rightarrow> ustring list \<Rightarrow> ustring" where
  "join sep [] = []"
| "join sep [w] = w"
| "join sep (w # v # ws) = w @ sep @ join sep (v # ws)"

text \<open>\<open>str(n)\<close> for a non-negative integer: its decimal digits.\<close>

function str_of_nat :: "nat \<Rightarrow> ustring" where
  "str_of_nat n = (if n < 10 then [48 + n] else str_of_nat (n div 10) @ [48 + n mod 10])"
  by pat_completeness auto
termination
  by (relation "measure (\<lambda>n. n)") auto

declare str_of_nat.simps [simp del]

text \<open>The slice \<open>xs[:k]\<close>: a negative \<open>k\<close> counts from the end.\<close>

definition slice_to :: "int \<Rightarrow> 'a list \<Rightarrow> 'a list" where
  "slice_to k xs = (if 0 \<le> k then take (nat k) xs else take (nat (int (length xs) + k)) xs)"

subsection \<open>What the script uses from outside the shown sources\<close>

text \<open>
  \<open>str.lower\<close> and the script property \<open>\p{Latin}\<close> of the \<open>regex\<close> module are tables of
  the Unicode database; \<open>tkrzw.Utility.PrimaryHash\<close> and \<open>random.Random\<close> are library code;
  \<open>tkrzw_tokenizer.Tokenizer.Tokenize\<close> is not among the shown sources. They are the
  fields of a record that every function of the model takes. \<open>lib_Tokenize\<close> stands for
  the one call made, \<open>Tokenize("en", text, False, True)\<close>.
\<close>

record ('g, 'h) lib =
  lib_lower :: "ustring \<Rightarrow> ustring"
  lib_Latin :: "nat \<Rightarrow> bool"
  lib_PrimaryHash :: "ustring \<Rightarrow> 'h"
  lib_Tokenize :: "ustring \<Rightarrow> ustring list"
  lib_Random :: "int \<Rightarrow> 'g"
  lib_randbelow :: "'g randbelow"

datatype error = ZeroDivisionError | IndexError | StatusException | OSError

text \<open>The arguments of the constructor of \<open>MakeIndexBatch\<close>.\<close>

record config =
  output_path :: ustring
  phrase_prob_path :: ustring
  keywords_path :: ustring
  max_words :: int
  max_ngram :: int
  max_samples :: int
  num_buckets :: int

text \<open>
  The state of a run: the fields of \<open>self\<close> that \<open>Run\<close> and \<open>ProcessRecords\<close> assign,
  and the local variables of \<open>ProcessRecords\<close> that live across lines. The probability
  table is read through \<open>float(GetStr(key) or 0.0)\<close>; it is modelled by the numbers its
  values parse to, and Python's floats by the real numbers (no rounding, no NaN).
  \<open>if self.phrase_prob_dbm:\<close> is modelled as the test that a table was opened.
\<close>

record ('g, 'h) batch =
  phrase_prob_dbm :: "(ustring \<rightharpoonup> real) option"
  focus_keywords :: "ustring set"
  output_dbm :: "ustring \<rightharpoonup> ustring"
  word_index :: "ustring \<rightharpoonup> nat list"
  random :: 'g
  num_lines :: nat
  num_words :: nat
  sentence_hashes :: "'h set"

subsection \<open>GetPhraseProb (lines 97 to 131)\<close>

definition base_prob :: real where
  "base_prob = 1 / 10 ^ 9"

definition lookup_prob :: "(ustring \<rightharpoonup> real) \<Rightarrow> ustring \<Rightarrow> real" where
  "lookup_prob tbl cur_phrase = (case tbl cur_phrase of None \<Rightarrow> 0 | Some v \<Rightarrow> v)"

text \<open>
  The inner \<open>while\<close> loop over the windows of \<open>ngram\<close> tokens: \<open>None\<close> when a window
  misses (\<open>miss = True; break\<close>), the probabilities of all windows otherwise.
\<close>

function scan_windows ::
  "(ustring \<rightharpoonup> real) \<Rightarrow> ustring list \<Rightarrow> nat \<Rightarrow> nat \<Rightarrow> real list \<Rightarrow> real list option" where
  "scan_windows tbl tokens ngram index probs =
     (if int index \<le> int (length tokens) - int ngram
      then (let cur_phrase = join [32] (take ngram (drop index tokens));
                cur_prob = lookup_prob tbl cur_phrase
            in if cur_prob = 0 then None
               else scan_windows tbl tokens ngram (index + 1) (probs @ [cur_prob]))
      else Some probs)"
  by pat_completeness auto
termination
  by (relation "measure (\<lambda>(tbl, tokens, ngram, index, probs). Suc (length tokens) - index)") auto

declare scan_windows.simps [simp del]

text \<open>
  The \<open>for ngram in range(max_ngram, 0, -1)\<close> loop, with \<open>fallback_penalty\<close> as its
  accumulator. \<open>len(probs) / inv_sum\<close> raises ZeroDivisionError when the sum is zero.
\<close>

fun order_loop :: "(ustring \<rightharpoonup> real) \<Rightarrow> ustring list \<Rightarrow> nat \<Rightarrow> real \<Rightarrow> error + real" where
  "order_loop tbl tokens 0 fallback_penalty = Inr base_prob"
| "order_loop tbl tokens (Suc m) fallback_penalty =
     (let ngram = Suc m in
      if length tokens \<le> ngram
      then (let prob = lookup_prob tbl (join [32] tokens)
            in if prob \<noteq> 0 then Inr (max prob base_prob)
               else order_loop tbl tokens m (fallback_penalty * (1 / 10)))
      else (case scan_windows tbl tokens ngram 0 [] of
              Some probs \<Rightarrow>
                (let inv_sum = foldl (\<lambda>acc cur_prob. acc + 1 / cur_prob) 0 probs
                 in if inv_sum = 0 then Inl ZeroDivisionError
                    else Inr (max (real (length probs) / inv_sum
                                    * (3 / 10) ^ (length tokens - ngram)
                                    * fallback_penalty) base_prob))
            | None \<Rightarrow> order_loop tbl tokens m (fallback_penalty * (1 / 10))))"

definition GetPhraseProb :: "(ustring \<rightharpoonup> real) \<Rightarrow> ustring \<Rightarrow> error + real" where
  "GetPhraseProb tbl word =
     (let tokens = split_on 32 word
      in if tokens = [] then Inr base_prob
         else order_loop tbl tokens (min 3 (length tokens)) 1)"


subsection \<open>Normalising a sentence (ProcessRecords, lines 143 to 146)\<close>

definition is_digit :: "nat \<Rightarrow> bool" where
  "is_digit c \<longleftrightarrow> 0x30 \<le> c \<and> c \<le> 0x39"

text \<open>The character class \<open>[-\p{Latin}0-9]\<close> around a quotation mark.\<close>

definition quote_neighbour :: "('g, 'h) lib \<Rightarrow> nat \<Rightarrow> bool" where
  "quote_neighbour L c \<longleftrightarrow> c = 0x2D \<or> lib_Latin L c \<or> is_digit c"

text \<open>\<open>regex.sub(r'[\u2018\u2019\u201C\u201D]', r'"', s)\<close>.\<close>

definition sub_curly :: "ustring \<Rightarrow> ustring" where
  "sub_curly s =
     map (\<lambda>c. if c = 0x2018 \<or> c = 0x2019 \<or> c = 0x201C \<or> c = 0x201D then 0x22 else c) s"

text \<open>
  \<open>regex.sub(r'([-\p{Latin}0-9])"([-\p{Latin}0-9])', r'\1" \2', s)\<close>: the matches are taken
  from left to right and do not overlap, so the search resumes after the three characters
  of a match.
\<close>

fun sub_quote :: "('g, 'h) lib \<Rightarrow> ustring \<Rightarrow> ustring" where
  "sub_quote L (x # q # y # rest) =
     (if quote_neighbour L x \<and> q = 0x22 \<and> quote_neighbour L y
      then x # q # 0x20 # y # sub_quote L rest
      else x # sub_quote L (q # y # rest))"
| "sub_quote L s = s"

definition mod_sentence_of :: "('g, 'h) lib \<Rightarrow> ustring \<Rightarrow> ustring" where
  "mod_sentence_of L sentence = sub_quote L (sub_curly (lib_lower L sentence))"

subsection \<open>Extracting the phrases of a sentence (ProcessRecords, lines 150 to 186)\<close>

text \<open>
  The character class \<open>[-\p{Latin}0-9_]\<close>. A word holds no line break (the lines are
  those the iteration over the input yields, stripped), so \<open>.\<close> matches each of its
  characters: \<open>^([^-\p{Latin}0-9_]+)(.*)$\<close> matches when the word starts outside the
  class and its second group is what follows the longest such prefix;
  \<open>^(.*?)([^-\p{Latin}0-9_]+)$\<close> matches when the word ends outside the class and its
  first group is what precedes the longest such suffix.
\<close>

definition word_char :: "('g, 'h) lib \<Rightarrow> nat \<Rightarrow> bool" where
  "word_char L c \<longleftrightarrow> c = 0x2D \<or> lib_Latin L c \<or> is_digit c \<or> c = 0x5F"

definition strip_head :: "('g, 'h) lib \<Rightarrow> ustring \<Rightarrow> bool \<times> ustring" where
  "strip_head L word =
     (if word \<noteq> [] \<and> \<not> word_char L (hd word)
      then (True, dropWhile (\<lambda>c. \<not> word_char L c) word)
      else (False, word))"

definition strip_tail :: "('g, 'h) lib \<Rightarrow> ustring \<Rightarrow> bool \<times> ustring" where
  "strip_tail L word =
     (if word \<noteq> [] \<and> \<not> word_char L (last word)
      then (True, rev (dropWhile (\<lambda>c. \<not> word_char L c) (rev word)))
      else (False, word))"

text \<open>\<open>regex.search(r"[\p{Latin}0-9]", word)\<close>.\<close>

definition has_alnum :: "('g, 'h) lib \<Rightarrow> ustring \<Rightarrow> bool" where
  "has_alnum L word \<longleftrightarrow> list_ex (\<lambda>c. lib_Latin L c \<or> is_digit c) word"

text \<open>
  The inner loop \<open>while index < end_index\<close>, over the words \<open>words[index:end_index]\<close>
  still to visit; \<open>first\<close> says that \<open>index = start_index\<close>. The accumulator holds
  \<open>phrases\<close>, \<open>uniq_phrases\<close> and \<open>num_words\<close>.
\<close>

fun grow_window ::
  "('g, 'h) lib \<Rightarrow> ustring set \<Rightarrow> bool \<Rightarrow> ustring list \<Rightarrow> ustring list
     \<Rightarrow> ustring list \<times> ustring set \<times> nat \<Rightarrow> ustring list \<times> ustring set \<times> nat" where
  "grow_window L keywords first [] tokens acc = acc"
| "grow_window L keywords first (w # ws) tokens (phrases, uniq_phrases, nwords) =
     (let (head_symbol, word1) = strip_head L w;
          (tail_symbol, word) = strip_tail L word1
      in if \<not> has_alnum L word then (phrases, uniq_phrases, nwords)
         else if head_symbol \<and> \<not> first then (phrases, uniq_phrases, nwords + 1)
         else (let tokens' = tokens @ [word];
                   phrase = join [32] tokens';
                   is_good = (keywords = {} \<or> phrase \<in> keywords \<or>
                              join [32] (lib_Tokenize L phrase) \<in> keywords);
                   acc' = (if is_good \<and> phrase \<notin> uniq_phrases
                           then (phrases @ [phrase], insert phrase uniq_phrases, nwords + 1)
                           else (phrases, uniq_phrases, nwords + 1))
               in if tail_symbol then acc'
                  else grow_window L keywords False ws tokens' acc'))"

text \<open>
  The outer loop \<open>while start_index < len(words)\<close>, over the words from \<open>start_index\<close> on.
  The window \<open>words[start_index:min(start_index + max_ngram, len(words))]\<close> is the first
  \<open>max_ngram\<close> of them, none when \<open>max_ngram\<close> is not positive.
\<close>

fun scan_words ::
  "('g, 'h) lib \<Rightarrow> ustring set \<Rightarrow> int \<Rightarrow> ustring list
     \<Rightarrow> ustring list \<times> ustring set \<times> nat \<Rightarrow> ustring list \<times> ustring set \<times> nat" where
  "scan_words L keywords mx [] acc = acc"
| "scan_words L keywords mx (w # ws) acc =
     scan_words L keywords mx ws
       (grow_window L keywords True (take (nat mx) (w # ws)) [] acc)"

subsection \<open>Pruning the phrases of a sentence (ProcessRecords, lines 187 to 194)\<close>

fun score_phrases :: "(ustring \<rightharpoonup> real) \<Rightarrow> ustring list \<Rightarrow> error + (ustring \<times> real) list" where
  "score_phrases tbl [] = Inr []"
| "score_phrases tbl (phrase # phrases) =
     (case GetPhraseProb tbl phrase of
        Inl e \<Rightarrow> Inl e
      | Inr prob \<Rightarrow>
          (case score_phrases tbl phrases of
             Inl e \<Rightarrow> Inl e
           | Inr scored \<Rightarrow> Inr ((phrase, prob) # scored)))"

text \<open>\<open>sorted(..., key=...)\<close> is a stable sort in ascending order of the key.\<close>

definition prune :: "int \<Rightarrow> (ustring \<rightharpoonup> real) option \<Rightarrow> ustring list \<Rightarrow> error + ustring list" where
  "prune mw dbm phrases =
     (if int (length phrases) > mw
      then (case dbm of
              Some tbl \<Rightarrow>
                (case score_phrases tbl phrases of
                   Inl e \<Rightarrow> Inl e
                 | Inr scored_phrases \<Rightarrow> Inr (map fst (sort_key snd scored_phrases)))
            | None \<Rightarrow> Inr phrases)
      else Inr phrases)"

text \<open>The phrases the loop of line 197 feeds to the reservoirs: \<open>phrases[:self.max_words]\<close>.\<close>

definition fed_phrases :: "int \<Rightarrow> (ustring \<rightharpoonup> real) option \<Rightarrow> ustring list \<Rightarrow> error + ustring list" where
  "fed_phrases mw dbm phrases =
     (case prune mw dbm phrases of Inl e \<Rightarrow> Inl e | Inr ps \<Rightarrow> Inr (slice_to mw ps))"

subsection \<open>ProcessRecords (lines 133 to 214)\<close>

text \<open>The key \<open>"[{}]".format(num_lines)\<close>.\<close>

definition line_key :: "nat \<Rightarrow> ustring" where
  "line_key n = [0x5B] @ str_of_nat n @ [0x5D]"

text \<open>
  The body of \<open>for line in sys.stdin\<close>; \<open>raw\<close> is a line as the iteration yields it,
  with its line break, if any, at the end. An exception of \<open>GetPhraseProb\<close> leaves the
  loop before anything is written for the line. The store is taken to accept every
  \<open>Set\<close>.
\<close>

definition ProcessLine ::
  "('g, 'h) lib \<Rightarrow> config \<Rightarrow> ('g, 'h) batch \<Rightarrow> ustring \<Rightarrow> error + ('g, 'h) batch" where
  "ProcessLine L cfg s raw =
     (let line = strip raw in
      if line = [] then Inr s
      else (case split_on 9 line of
              [] \<Rightarrow> Inl IndexError
            | field0 # _ \<Rightarrow>
                (let sentence = strip field0;
                     mod_sentence = mod_sentence_of L sentence;
                     sentence_hash = lib_PrimaryHash L mod_sentence
                 in if sentence_hash \<in> sentence_hashes s then Inr s
                    else (let words = split_on 32 mod_sentence;
                              (phrases, uniq_phrases, nwords) =
                                 scan_words L (focus_keywords s) (max_ngram cfg) words
                                   ([], {}, num_words s)
                          in case fed_phrases (max_words cfg) (phrase_prob_dbm s) phrases of
                               Inl e \<Rightarrow> Inl e
                             | Inr fed \<Rightarrow>
                                 (let (wi, rnd) =
                                        Updates (lib_randbelow L) (max_samples cfg)
                                          (word_index s, random s)
                                          (map (\<lambda>phrase. (phrase, num_lines s)) fed)
                                  in Inr (s\<lparr>output_dbm := (output_dbm s)(line_key (num_lines s) \<mapsto> line),
                                            word_index := wi,
                                            random := rnd,
                                            num_lines := num_lines s + 1,
                                            num_words := nwords,
                                            sentence_hashes :=
                                              insert sentence_hash (sentence_hashes s)\<rparr>))))))"

fun ProcessLines ::
  "('g, 'h) lib \<Rightarrow> config \<Rightarrow> ('g, 'h) batch \<Rightarrow> ustring list \<Rightarrow> error + ('g, 'h) batch" where
  "ProcessLines L cfg s [] = Inr s"
| "ProcessLines L cfg s (raw # raws) =
     (case ProcessLine L cfg s raw of
        Inl e \<Rightarrow> Inl e
      | Inr s' \<Rightarrow> ProcessLines L cfg s' raws)"

text \<open>\<open>ProcessRecords\<close> starts from \<open>num_lines = 0\<close>, \<open>num_words = 0\<close> and no hash seen.\<close>

definition ProcessRecords ::
  "('g, 'h) lib \<Rightarrow> config \<Rightarrow> ('g, 'h) batch \<Rightarrow> ustring list \<Rightarrow> error + ('g, 'h) batch" where
  "ProcessRecords L cfg s input =
     ProcessLines L cfg (s\<lparr>num_lines := 0, num_words := 0, sentence_hashes := {}\<rparr>) input"

subsection \<open>OutputIndex (lines 216 to 228)\<close>

text \<open>
  Each key of \<open>word_index\<close> is written once, with its sample ids sorted and joined by
  commas; the keys of a dictionary are distinct, so the order of the writes does not show.
\<close>

definition index_value :: "nat list \<Rightarrow> ustring" where
  "index_value ids = join [0x2C] (map str_of_nat (sort (tl ids)))"

definition OutputIndex :: "('g, 'h) batch \<Rightarrow> ('g, 'h) batch" where
  "OutputIndex s =
     s\<lparr>output_dbm := (\<lambda>key. case word_index s key of
                               Some ids \<Rightarrow> Some (index_value ids)
                             | None \<Rightarrow> output_dbm s key)\<rparr>"

subsection \<open>ReadKeywords (lines 79 to 95) and Run (lines 60 to 77)\<close>

fun ReadKeywords :: "('g, 'h) lib \<Rightarrow> ustring set \<Rightarrow> ustring list \<Rightarrow> ustring set" where
  "ReadKeywords L keywords [] = keywords"
| "ReadKeywords L keywords (raw # raws) =
     (let line = strip raw in
      if line = [] then ReadKeywords L keywords raws
      else (let line' = lib_lower L line;
                norm_line = join [32] (lib_Tokenize L line')
            in ReadKeywords L (insert norm_line (insert line' keywords)) raws))"

text \<open>
  What a run reads from outside: the probability tables and the text files by path
  (\<open>None\<close> when opening fails), the lines of the standard input, and the successive
  readings of \<open>time.time()\<close>.
\<close>

record world =
  dbm_files :: "ustring \<Rightarrow> (ustring \<rightharpoonup> real) option"
  text_files :: "ustring \<Rightarrow> ustring list option"
  stdin :: "ustring list"
  clock :: "nat \<Rightarrow> real"

text \<open>
  \<open>Run\<close> returns the final state and the elapsed times that its log messages report
  (those of \<open>ReadKeywords\<close>, \<open>ProcessRecords\<close>, \<open>OutputIndex\<close> and \<open>Run\<close>). The generator is
  the one \<open>__init__\<close> builds, \<open>random.Random(19780211)\<close>; the output store is opened with
  \<open>truncate=True\<close> and starts empty.
\<close>

definition Run ::
  "('g, 'h) lib \<Rightarrow> config \<Rightarrow> world \<Rightarrow> error + (('g, 'h) batch \<times> real list)" where
  "Run L cfg w =
     (let start_time = clock w 0 in
      case (if phrase_prob_path cfg \<noteq> []
            then (case dbm_files w (phrase_prob_path cfg) of
                    None \<Rightarrow> Inl StatusException
                  | Some tbl \<Rightarrow> Inr (Some tbl))
            else Inr None) of
        Inl e \<Rightarrow> Inl e
      | Inr dbm \<Rightarrow>
          (case (if keywords_path cfg \<noteq> []
                 then (case text_files w (keywords_path cfg) of
                         None \<Rightarrow> Inl OSError
                       | Some raws \<Rightarrow> Inr (ReadKeywords L {} raws, [clock w 2 - clock w 1], 3))
                 else Inr ({}, [], 1)) of
             Inl e \<Rightarrow> Inl e
           | Inr (keywords, log1, t) \<Rightarrow>
               (let s0 = \<lparr>phrase_prob_dbm = dbm, focus_keywords = keywords,
                          output_dbm = Map.empty, word_index = Map.empty,
                          random = lib_Random L 19780211,
                          num_lines = 0, num_words = 0, sentence_hashes = {}\<rparr>
                in case ProcessRecords L cfg s0 (stdin w) of
                     Inl e \<Rightarrow> Inl e
                   | Inr s1 \<Rightarrow>
                       Inr (OutputIndex s1,
                            log1 @ [clock w (t + 1) - clock w t,
                                    clock w (t + 3) - clock w (t + 2),
                                    clock w (t + 4) - start_time]))))"

subsection \<open>A library for text within ASCII\<close>

text \<open>
  On the ASCII characters, \<open>str.lower\<close> maps \<open>A\<close> to \<open>Z\<close> onto \<open>a\<close> to \<open>z\<close> and the
  letters are the characters of the Latin script. This instance serves the concrete
  runs below, whose input is ASCII: the hash is the identity (no two sentences collide),
  the tokenizer splits at spaces, and the generator replays a tape.
\<close>

definition ascii_lower :: "ustring \<Rightarrow> ustring" where
  "ascii_lower s = map (\<lambda>c. if 0x41 \<le> c \<and> c \<le> 0x5A then c + 0x20 else c) s"

definition ascii_Latin :: "nat \<Rightarrow> bool" where
  "ascii_Latin c \<longleftrightarrow> (0x41 \<le> c \<and> c \<le> 0x5A) \<or> (0x61 \<le> c \<and> c \<le> 0x7A)"

definition tape_Random :: "int \<Rightarrow> nat list" where
  "tape_Random seed = [nat (seed mod 7), nat (seed mod 11), nat (seed mod 13)]"

definition ascii_lib :: "(nat list, ustring) lib" where
  "ascii_lib = \<lparr>lib_lower = ascii_lower, lib_Latin = ascii_Latin, lib_PrimaryHash = id,
                lib_Tokenize = split_on 32, lib_Random = tape_Random,
                lib_randbelow = tape_randbelow\<rparr>"

subsection \<open>Notions used to state the properties\<close>

text \<open>
  The invariant of one record of \<open>word_index\<close> against the line ids \<open>occ\<close> its phrase was
  updated with, and of the whole index against the updates made so far.
\<close>

definition rec_ok :: "int \<Rightarrow> nat list \<Rightarrow> nat list \<Rightarrow> bool" where
  "rec_ok ms occ r \<longleftrightarrow> r \<noteq> [] \<and> count_of r = length occ \<and> samples_of r \<noteq> [] \<and>
     int (length (samples_of r)) \<le> max 1 ms \<and> length (samples_of r) \<le> count_of r \<and>
     (int (count_of r) \<le> ms \<longrightarrow> samples_of r = occ)"

definition index_ok :: "int \<Rightarrow> (ustring \<times> nat) list \<Rightarrow> (ustring \<rightharpoonup> nat list) \<Rightarrow> bool" where
  "index_ok ms us wi \<longleftrightarrow>
     (\<forall>p. (wi p = None \<longrightarrow> occurrences p us = []) \<and>
          (\<forall>r. wi p = Some r \<longrightarrow> rec_ok ms (occurrences p us) r))"

text \<open>A probability table has no negative entry; \<open>dbm_ok\<close> also admits the absent table.\<close>

definition nonneg_table :: "(ustring \<rightharpoonup> real) \<Rightarrow> bool" where
  "nonneg_table tbl \<longleftrightarrow> (\<forall>key. 0 \<le> lookup_prob tbl key)"

definition dbm_ok :: "(ustring \<rightharpoonup> real) option \<Rightarrow> bool" where
  "dbm_ok dbm \<longleftrightarrow> (case dbm of None \<Rightarrow> True | Some tbl \<Rightarrow> nonneg_table tbl)"

text \<open>The hash \<open>ProcessRecords\<close> computes for a raw line (lines 140 to 147).\<close>

definition sentence_hash_of :: "('g, 'h) lib \<Rightarrow> ustring \<Rightarrow> 'h" where
  "sentence_hash_of L raw =
     lib_PrimaryHash L (mod_sentence_of L (strip (hd (split_on 9 (strip raw)))))"

text \<open>
  The lines a run accepts, stripped, in order: those that are not blank and whose hash
  was not seen on an earlier accepted line.
\<close>

fun accepted :: "('g, 'h) lib \<Rightarrow> 'h set \<Rightarrow> ustring list \<Rightarrow> ustring list" where
  "accepted L seen [] = []"
| "accepted L seen (raw # raws) =
     (if strip raw = [] then accepted L seen raws
      else if sentence_hash_of L raw \<in> seen then accepted L seen raws
      else strip raw # accepted L (insert (sentence_hash_of L raw) seen) raws)"

text \<open>Reading a decimal numeral back, to tell the keys of the lines apart.\<close>

definition nat_of_str :: "ustring \<Rightarrow> nat" where
  "nat_of_str ds = foldl (\<lambda>a d. 10 * a + (d - 48)) 0 ds"

text \<open>
  In \<open>GetPhraseProb\<close>, the order \<open>j\<close> misses when the loop body for \<open>ngram = j\<close> returns
  nothing: the whole phrase has no non-zero entry, or some window of \<open>j\<close> tokens has none.
  \<open>window tokens ngram i\<close> is the key \<open>" ".join(tokens[i:i + ngram])\<close>.
\<close>

definition order_misses :: "(ustring \<rightharpoonup> real) \<Rightarrow> ustring list \<Rightarrow> nat \<Rightarrow> bool" where
  "order_misses tbl tokens j \<longleftrightarrow>
     (if length tokens \<le> j then lookup_prob tbl (join [32] tokens) = 0
      else scan_windows tbl tokens j 0 [] = None)"

definition window :: "ustring list \<Rightarrow> nat \<Rightarrow> nat \<Rightarrow> ustring" where
  "window tokens ngram i = join [32] (take ngram (drop i tokens))"

text \<open>Concrete inputs: a configuration, two lines, a starting state, a table, a world.\<close>

definition scenario_cfg :: config where
  "scenario_cfg = \<lparr>output_path = ustr ''out.tkh'', phrase_prob_path = [], keywords_path = [],
     max_words = 50, max_ngram = 2, max_samples = 100, num_buckets = 1000000\<rparr>"

definition scenario_lines :: "ustring list" where
  "scenario_lines = [ustr ''The cat sat.'' @ [9] @ ustr ''neko ga suwat'',
                     ustr ''the cat sat'' @ [9] @ ustr ''neko ga suwatta'']"

definition empty_batch :: "(nat list, ustring) batch" where
  "empty_batch = \<lparr>phrase_prob_dbm = None, focus_keywords = {}, output_dbm = Map.empty,
     word_index = Map.empty, random = tape_Random 19780211, num_lines = 0, num_words = 0,
     sentence_hashes = {}\<rparr>"

definition ab_table :: "ustring \<rightharpoonup> real" where
  "ab_table = [ustr ''a'' \<mapsto> 1 / 2, ustr ''b'' \<mapsto> 1 / 4]"

definition scenario_world :: world where
  "scenario_world = \<lparr>dbm_files = (\<lambda>path. None), text_files = (\<lambda>path. None),
     stdin = scenario_lines, clock = (\<lambda>n. real n)\<rparr>"

section \<open>Properties\<close>

lemmas eval_simps = ProcessRecords_def ProcessLine_def strip_def isspace_def mod_sentence_of_def
  sub_curly_def quote_neighbour_def is_digit_def word_char_def strip_head_def strip_tail_def
  has_alnum_def fed_phrases_def prune_def slice_to_def line_key_def str_of_nat.simps
  Update_def randint1_def Let_def

lemmas ascii_simps = ascii_lib_def ascii_lower_def ascii_Latin_def

subsection \<open>The reservoir\<close>

text \<open>
  Claim C1 says that, for a phrase whose reservoir is full, the update draws \<open>r\<close> in
  \<open>[1, count]\<close> and overwrites \<open>samples[r - 1]\<close> whenever \<open>r \<le> max_samples\<close>, so that every
  sample position can be replaced. The code tests \<open>rnd_value < self.max_samples\<close>: with
  \<open>max_samples = 2\<close>, the record \<open>[2, 0, 1]\<close> and the draw \<open>r = 2\<close>, the new line id 2 is
  discarded and the record becomes \<open>[3, 0, 1]\<close>, where the claim has \<open>[3, 0, 2]\<close>.
\<close>

theorem Update_discards_draw_equal_to_max_samples:
  "randint1 tape_randbelow [1] 3 = (2, []) \<and>
   Update tape_randbelow 2 ([ustr ''a'' \<mapsto> [2, 0, 1]], [1]) (ustr ''a'') 2
     = ([ustr ''a'' \<mapsto> [3, 0, 1]], [])"
  by (simp add: Update_def randint1_def)

text \<open>
  Whatever the generator draws, the last slot of a full reservoir keeps its value: no
  later occurrence can take the place of the sample stored there.
\<close>

lemma full_reservoir_keeps_last_slot:
  assumes "wi phrase = Some old_record" and "1 \<le> ms"
    and "int (length old_record) = ms + 1"
  shows "\<exists>new_record. fst (Update rb ms (wi, rnd) phrase n) phrase
            = Some new_record \<and> last new_record = last old_record"
proof -
  obtain c ids where r: "old_record = c # ids" using assms(3,2) by (cases old_record) auto
  obtain v g' where rv: "randint1 rb rnd (c + 1) = (Suc v, g')"
    by (cases "rb rnd (c + 1)") (simp add: randint1_def)
  have ids: "ids \<noteq> []" using assms(2,3) r by auto
  have len: "int (length ids) = ms" using assms(3) r by simp
  have full: "\<not> int (length (c # ids)) \<le> ms" using len by simp
  show ?thesis
  proof (cases "int (Suc v) < ms")
    case True
    then have "v \<noteq> length ids - 1" using len by linarith
    then have "last (ids[v := n]) = last ids" using ids by (simp add: last_list_update)
    then show ?thesis using assms(1) r rv True full ids
      by (simp add: Update_def)
  next
    case False
    then show ?thesis using assms(1) r rv full ids by (simp add: Update_def)
  qed
qed

lemma occurrences_snoc:
  "occurrences p (us @ [(q, n)]) = (if q = p then occurrences p us @ [n] else occurrences p us)"
  by (simp add: occurrences_def)

lemma Update_other: "q \<noteq> p \<Longrightarrow> fst (Update rb ms st p n) q = fst st q"
  by (auto simp: Update_def Let_def split: prod.splits option.splits list.splits)

lemma Update_new:
  "fst st p = None \<Longrightarrow> fst (Update rb ms st p n) p = Some [1, n]"
  by (auto simp: Update_def Let_def split: prod.splits)

lemma Update_old:
  assumes "fst st p = Some r" "rec_ok ms occ r"
  shows "\<exists>r'. fst (Update rb ms st p n) p = Some r' \<and> rec_ok ms (occ @ [n]) r'"
proof -
  from assms(2) obtain c ids where r: "r = c # ids" and ids: "ids \<noteq> []"
    by (cases r) (auto simp: rec_ok_def samples_of_def)
  from assms(2) r have c: "c = length occ" and le: "length ids \<le> c"
    and bound: "int (length ids) \<le> max 1 ms" and all: "int c \<le> ms \<longrightarrow> ids = occ"
    by (auto simp: rec_ok_def samples_of_def count_of_def)
  obtain wi g where st: "st = (wi, g)" by (cases st)
  show ?thesis
  proof (cases "int (length (c # ids)) \<le> ms")
    case True
    then have "fst (Update rb ms st p n) p = Some (Suc c # ids @ [n])"
      using assms(1) r st by (simp add: Update_def)
    moreover have "rec_ok ms (occ @ [n]) (Suc c # ids @ [n])"
      using True c le all by (auto simp: rec_ok_def samples_of_def count_of_def)
    ultimately show ?thesis by blast
  next
    case False
    obtain v g' where rv: "randint1 rb g (c + 1) = (v, g')" by (cases "randint1 rb g (c + 1)")
    have v: "1 \<le> v" using rv by (auto simp: randint1_def split: prod.splits)
    define r' where "r' = (if int v < ms then ((c # ids)[v := n])[0 := c + 1] else (c # ids)[0 := c + 1])"
    have upd: "fst (Update rb ms st p n) p = Some r'"
      using assms(1) r st False rv by (simp add: Update_def r'_def)
    have shape: "\<exists>ids'. r' = Suc c # ids' \<and> length ids' = length ids"
      using v by (cases v) (auto simp: r'_def)
    then obtain ids' where r'': "r' = Suc c # ids'" and len: "length ids' = length ids" by blast
    have "rec_ok ms (occ @ [n]) r'"
      using False c le bound ids len r''
      by (auto simp: rec_ok_def samples_of_def count_of_def)
    with upd show ?thesis by blast
  qed
qed

lemma Update_index_ok:
  assumes "index_ok ms us (fst st)"
  shows "index_ok ms (us @ [(p, n)]) (fst (Update rb ms st p n))"
  unfolding index_ok_def
proof (intro allI)
  fix q
  let ?wi = "fst (Update rb ms st p n)"
  show "(?wi q = None \<longrightarrow> occurrences q (us @ [(p, n)]) = []) \<and>
        (\<forall>r. ?wi q = Some r \<longrightarrow> rec_ok ms (occurrences q (us @ [(p, n)])) r)"
  proof (cases "q = p")
    case False
    then have "p \<noteq> q" by blast
    then have "occurrences q (us @ [(p, n)]) = occurrences q us"
      by (simp add: occurrences_snoc)
    then show ?thesis using assms Update_other[OF False, of rb ms st n]
      by (simp add: index_ok_def)
  next
    case True
    show ?thesis
    proof (cases "fst st p")
      case None
      then have "occurrences p us = []" using assms by (simp add: index_ok_def)
      then show ?thesis using True Update_new[OF None, of rb ms n]
        by (simp add: occurrences_snoc rec_ok_def count_of_def samples_of_def)
    next
      case (Some r)
      then have "rec_ok ms (occurrences p us) r" using assms by (simp add: index_ok_def)
      from Update_old[OF Some this, of rb n] show ?thesis using True
        by (auto simp: occurrences_snoc)
    qed
  qed
qed

lemma Updates_index_ok:
  "index_ok ms pre (fst st) \<Longrightarrow> index_ok ms (pre @ us) (fst (Updates rb ms st us))"
proof (induction us arbitrary: st pre)
  case Nil
  then show ?case by simp
next
  case (Cons u us)
  obtain p n where u: "u = (p, n)" by (cases u)
  from Update_index_ok[OF Cons.prems, of p n rb]
  have "index_ok ms ((pre @ [(p, n)]) @ us) (fst (Updates rb ms (Update rb ms st p n) us))"
    by (rule Cons.IH)
  then show ?case by (simp add: u)
qed

lemma index_ok_empty: "index_ok ms [] Map.empty"
  by (simp add: index_ok_def occurrences_def)

text \<open>
  Claim C2, as stated, bounds the number of samples by \<open>max_samples\<close> for every
  configuration. The first occurrence of a phrase always stores its line id, so with
  \<open>max_samples = 0\<close> the record holds one sample.
\<close>

theorem reservoir_bound_counterexample:
  "fst (Updates tape_randbelow 0 (Map.empty, []) [(ustr ''a'', 0)]) (ustr ''a'') = Some [1, 0] \<and>
   \<not> int (length (samples_of [1, 0])) \<le> 0"
  by (simp add: Update_def samples_of_def)

text \<open>
  Claim C2, amended: when \<open>max_samples\<close> is at least 1, after any run of updates from the
  empty index the record of every phrase has at most \<open>max_samples\<close> samples and a count
  that is at least the number of samples; the count is the number of occurrences; and
  while the count does not exceed \<open>max_samples\<close> the samples are exactly the line ids of
  all occurrences, in order.
\<close>

theorem reservoir_invariant:
  assumes "1 \<le> ms"
    and "fst (Updates rb ms (Map.empty, g) us) phrase = Some r"
  shows "int (length (samples_of r)) \<le> ms \<and> length (samples_of r) \<le> count_of r \<and>
         count_of r = length (occurrences phrase us) \<and>
         (int (count_of r) \<le> ms \<longrightarrow> samples_of r = occurrences phrase us)"
proof -
  have "index_ok ms ([] @ us) (fst (Updates rb ms (Map.empty, g) us))"
    by (rule Updates_index_ok) (simp add: index_ok_empty)
  then have "rec_ok ms (occurrences phrase us) r"
    using assms(2) by (simp add: index_ok_def)
  then show ?thesis using assms(1) by (auto simp: rec_ok_def)
qed

theorem reservoir_invariant_witness:
  "(1::int) \<le> 2 \<and>
   fst (Updates tape_randbelow 2 (Map.empty, [1]) [(ustr ''a'', 0), (ustr ''a'', 1), (ustr ''a'', 2)])
     (ustr ''a'') = Some [3, 0, 1] \<and>
   int (length (samples_of [3, 0, 1])) \<le> 2 \<and> length (samples_of [3, 0, 1]) \<le> count_of [3, 0, 1] \<and>
   count_of [3, 0, 1] = length (occurrences (ustr ''a'') [(ustr ''a'', 0), (ustr ''a'', 1), (ustr ''a'', 2)])"
proof -
  have h1: "(1::int) \<le> 2" by simp
  have h2: "fst (Updates tape_randbelow 2 (Map.empty, [1]) [(ustr ''a'', 0), (ustr ''a'', 1), (ustr ''a'', 2)])
     (ustr ''a'') = Some [3, 0, 1]"
    by (simp add: Update_def randint1_def)
  show ?thesis using h1 h2 reservoir_invariant[OF h1 h2] by simp
qed

subsection \<open>GetPhraseProb\<close>

lemma split_on_not_Nil: "split_on sep s \<noteq> []"
  by (induction s) (auto split: list.splits)

lemma scan_windows_eq:
  "scan_windows tbl tokens ngram i probs =
     (if \<forall>j. i \<le> j \<and> int j \<le> int (length tokens) - int ngram \<longrightarrow>
              lookup_prob tbl (join [32] (take ngram (drop j tokens))) \<noteq> 0
      then Some (probs @ map (\<lambda>j. lookup_prob tbl (join [32] (take ngram (drop j tokens))))
                            [i ..< nat (int (length tokens) - int ngram + 1)])
      else None)"
proof (induction tbl tokens ngram i probs rule: scan_windows.induct)
  case (1 tbl tokens ngram index probs)
  show ?case
  proof (cases "int index \<le> int (length tokens) - int ngram")
    case False
    then show ?thesis by (subst scan_windows.simps) auto
  next
    case True
    let ?p = "lookup_prob tbl (join [32] (take ngram (drop index tokens)))"
    show ?thesis
    proof (cases "?p = 0")
      case True
      with \<open>int index \<le> int (length tokens) - int ngram\<close> show ?thesis
        by (subst scan_windows.simps) (auto simp: Let_def)
    next
      case False
      have range: "[index ..< nat (int (length tokens) - int ngram + 1)]
                 = index # [Suc index ..< nat (int (length tokens) - int ngram + 1)]"
        using True by (simp add: upt_conv_Cons)
      have all: "(\<forall>j. index \<le> j \<and> int j \<le> int (length tokens) - int ngram \<longrightarrow>
              lookup_prob tbl (join [32] (take ngram (drop j tokens))) \<noteq> 0) \<longleftrightarrow>
            (\<forall>j. Suc index \<le> j \<and> int j \<le> int (length tokens) - int ngram \<longrightarrow>
              lookup_prob tbl (join [32] (take ngram (drop j tokens))) \<noteq> 0)"
        using False by (metis Suc_leI le_less Suc_leD)
      have "scan_windows tbl tokens ngram index probs
              = scan_windows tbl tokens ngram (index + 1) (probs @ [?p])"
        using True False by (subst scan_windows.simps) (simp add: Let_def)
      also have "\<dots> = (if \<forall>j. Suc index \<le> j \<and> int j \<le> int (length tokens) - int ngram \<longrightarrow>
              lookup_prob tbl (join [32] (take ngram (drop j tokens))) \<noteq> 0
          then Some ((probs @ [?p]) @ map (\<lambda>j. lookup_prob tbl (join [32] (take ngram (drop j tokens))))
                            [Suc index ..< nat (int (length tokens) - int ngram + 1)])
          else None)"
        using "1.IH"[OF True refl refl False] by simp
      finally show ?thesis unfolding all range by simp
    qed
  qed
qed

lemma foldl_inv_sum:
  "foldl (\<lambda>acc cur_prob. acc + 1 / cur_prob) a probs = a + sum_list (map (\<lambda>p. 1 / p) probs)"
  by (induction probs arbitrary: a) (simp_all add: add.assoc)

lemma sum_list_pos:
  fixes xs :: "real list"
  assumes "xs \<noteq> []" "\<forall>x \<in> set xs. 0 < x"
  shows "0 < sum_list xs"
  using assms by (induction xs) (auto intro: add_pos_nonneg sum_list_nonneg less_imp_le)

lemma order_loop_floor:
  "order_loop tbl tokens m pen = Inr v \<Longrightarrow> base_prob \<le> v"
proof (induction m arbitrary: pen)
  case 0
  then show ?case by simp
next
  case (Suc m)
  show ?case
  proof (cases "length tokens \<le> Suc m")
    case True
    with Suc show ?thesis by (auto simp: Let_def split: if_splits)
  next
    case False
    with Suc show ?thesis by (auto simp: Let_def split: if_splits option.splits)
  qed
qed

lemma scan_windows_nonneg:
  assumes "nonneg_table tbl" "scan_windows tbl tokens ngram 0 [] = Some probs"
  shows "\<forall>p \<in> set probs. 0 < p"
proof -
  from assms(2) have all: "\<forall>j. int j \<le> int (length tokens) - int ngram \<longrightarrow>
      lookup_prob tbl (window tokens ngram j) \<noteq> 0"
    and probs: "probs = map (\<lambda>j. lookup_prob tbl (window tokens ngram j))
                    [0 ..< nat (int (length tokens) - int ngram + 1)]"
    unfolding scan_windows_eq window_def by (auto split: if_splits)
  show ?thesis
  proof
    fix p assume "p \<in> set probs"
    then obtain j where j: "j < nat (int (length tokens) - int ngram + 1)"
      and p: "p = lookup_prob tbl (window tokens ngram j)"
      unfolding probs by auto
    from j have "int j \<le> int (length tokens) - int ngram" by linarith
    with all have "p \<noteq> 0" unfolding p by blast
    moreover have "0 \<le> p" using assms(1) unfolding p nonneg_table_def by blast
    ultimately show "0 < p" by simp
  qed
qed

lemma scan_windows_nonempty:
  assumes "ngram < length tokens" "scan_windows tbl tokens ngram 0 [] = Some probs"
  shows "probs \<noteq> []"
proof -
  from assms(2) have "probs = map (\<lambda>j. lookup_prob tbl (join [32] (take ngram (drop j tokens))))
                    [0 ..< nat (int (length tokens) - int ngram + 1)]"
    unfolding scan_windows_eq by (auto split: if_splits)
  then show ?thesis using assms(1) by auto
qed

lemma order_loop_total:
  assumes "nonneg_table tbl"
  shows "\<exists>v. order_loop tbl tokens m pen = Inr v"
proof (induction m arbitrary: pen)
  case 0
  then show ?case by simp
next
  case (Suc m)
  show ?case
  proof (cases "length tokens \<le> Suc m")
    case True
    then show ?thesis using Suc by (simp add: Let_def)
  next
    case False
    show ?thesis
    proof (cases "scan_windows tbl tokens (Suc m) 0 []")
      case None
      then show ?thesis using False Suc by simp
    next
      case (Some probs)
      have pos: "\<forall>p \<in> set probs. 0 < p" by (rule scan_windows_nonneg[OF assms Some])
      have ne: "probs \<noteq> []" using False by (intro scan_windows_nonempty[OF _ Some]) simp
      have "0 < sum_list (map (\<lambda>p. 1 / p) probs)"
        by (rule sum_list_pos) (use pos ne in auto)
      then have "foldl (\<lambda>acc cur_prob. acc + 1 / cur_prob) 0 probs \<noteq> 0"
        by (simp add: foldl_inv_sum)
      then show ?thesis using False Some by (simp add: Let_def)
    qed
  qed
qed

lemma GetPhraseProb_ge:
  "GetPhraseProb tbl word = Inr u \<Longrightarrow> 1 / 10 ^ 9 \<le> u"
  using order_loop_floor[of tbl "split_on 32 word" "min 3 (length (split_on 32 word))" 1 u]
  by (auto simp: GetPhraseProb_def Let_def base_prob_def split: if_splits)

lemma GetPhraseProb_total:
  "nonneg_table tbl \<Longrightarrow> \<exists>v. GetPhraseProb tbl word = Inr v"
  using order_loop_total[of tbl "split_on 32 word"]
  by (simp add: GetPhraseProb_def Let_def)

text \<open>
  Claim C7: \<open>GetPhraseProb\<close> never returns a value below \<open>1e-9\<close>, and for a table without
  negative entries it returns a value, at least \<open>1e-9\<close>, for every phrase, also one that
  the table lacks at every order.
\<close>

theorem GetPhraseProb_floor:
  "(GetPhraseProb tbl word = Inr v \<longrightarrow> 1 / 10 ^ 9 \<le> v) \<and>
   (nonneg_table tbl \<longrightarrow> (\<exists>v'. GetPhraseProb tbl word = Inr v' \<and> 1 / 10 ^ 9 \<le> v'))"
  using GetPhraseProb_ge GetPhraseProb_total by blast

theorem GetPhraseProb_floor_witness:
  "GetPhraseProb Map.empty (ustr ''zebra crossing'') = Inr (1 / 10 ^ 9) \<and>
   (\<exists>v. GetPhraseProb ab_table (ustr ''a b'') = Inr v \<and> 1 / 10 ^ 9 \<le> v)"
proof -
  have h1: "GetPhraseProb Map.empty (ustr ''zebra crossing'') = Inr (1 / 10 ^ 9)"
    by (simp add: GetPhraseProb_def lookup_prob_def scan_windows.simps base_prob_def)
  have h2: "nonneg_table ab_table"
    by (simp add: nonneg_table_def lookup_prob_def ab_table_def)
  from GetPhraseProb_floor[of ab_table "ustr ''a b''"] h1 h2 show ?thesis by blast
qed

lemma order_loop_skip:
  assumes "\<forall>j. ngram < j \<and> j \<le> M \<longrightarrow> order_misses tbl tokens j" "ngram \<le> M"
  shows "order_loop tbl tokens M pen = order_loop tbl tokens ngram (pen * (1 / 10) ^ (M - ngram))"
  using assms
proof (induction M arbitrary: pen)
  case 0
  then show ?case by simp
next
  case (Suc M)
  show ?case
  proof (cases "ngram = Suc M")
    case True
    then show ?thesis by simp
  next
    case False
    with Suc.prems have le: "ngram \<le> M" by simp
    from Suc.prems(1) le have miss: "order_misses tbl tokens (Suc M)" by simp
    have "order_loop tbl tokens (Suc M) pen = order_loop tbl tokens M (pen * (1 / 10))"
      using miss by (auto simp: order_misses_def Let_def split: if_splits)
    also have "\<dots> = order_loop tbl tokens ngram (pen * (1 / 10) * (1 / 10) ^ (M - ngram))"
      using Suc.prems(1) le by (intro Suc.IH) auto
    also have "pen * (1 / 10) * (1 / 10) ^ (M - ngram) = pen * (1 / 10) ^ (Suc M - ngram)"
      using le by (simp add: Suc_diff_le)
    finally show ?thesis .
  qed
qed

text \<open>
  Claim C6: let a phrase have \<open>n\<close> tokens and let the order \<open>ngram < n\<close> be reached after
  the \<open>k\<close> higher orders missed. If a window of \<open>ngram\<close> tokens is absent from the table,
  the order misses: the loop goes on to the next order with the penalty \<open>0.1 ^ k\<close>
  multiplied by \<open>0.1\<close>. If all \<open>m = n - ngram + 1\<close> windows are found with probabilities
  \<open>p 0, ..., p (m - 1)\<close>, the result is the larger of \<open>base_prob\<close> and the harmonic mean
  \<open>m / sum (1 / p i)\<close> times \<open>0.3 ^ (n - ngram)\<close> times \<open>0.1 ^ k\<close>.
\<close>

theorem GetPhraseProb_backoff:
  assumes tokens: "tokens = split_on 32 word" and n: "n = length tokens"
    and ngram: "1 \<le> ngram" "ngram < n" "ngram \<le> 3"
    and k: "k = min 3 n - ngram"
    and higher: "\<forall>j. ngram < j \<and> j \<le> min 3 n \<longrightarrow> order_misses tbl tokens j"
  shows "((\<exists>i. i + ngram \<le> n \<and> tbl (window tokens ngram i) = None) \<longrightarrow>
            GetPhraseProb tbl word = order_loop tbl tokens (ngram - 1) ((1 / 10) ^ k * (1 / 10))) \<and>
         ((\<forall>i. i + ngram \<le> n \<longrightarrow> tbl (window tokens ngram i) = Some (p i) \<and> 0 < p i) \<longrightarrow>
            GetPhraseProb tbl word =
              Inr (max base_prob
                    (real (n - ngram + 1) / (\<Sum>i < n - ngram + 1. 1 / p i)
                       * (3 / 10) ^ (n - ngram) * (1 / 10) ^ k)))"
proof -
  obtain m where m: "ngram = Suc m" using ngram(1) by (cases ngram) auto
  have le: "ngram \<le> min 3 n" using ngram by simp
  have start: "GetPhraseProb tbl word = order_loop tbl tokens ngram ((1 / 10) ^ k)"
    using order_loop_skip[OF higher le, of 1] split_on_not_Nil[of 32 word]
    by (simp add: GetPhraseProb_def Let_def tokens[symmetric] n[symmetric] k)
  have cnt: "nat (int (length tokens) - int ngram + 1) = n - ngram + 1"
    using ngram(2) n by linarith
  have miss: "order_loop tbl tokens ngram pen = order_loop tbl tokens (ngram - 1) (pen * (1 / 10))"
    if "i + ngram \<le> n" "tbl (window tokens ngram i) = None" for i pen
  proof -
    have "lookup_prob tbl (join [32] (take ngram (drop i tokens))) = 0"
      using that(2) by (simp add: lookup_prob_def window_def)
    moreover have "int i \<le> int (length tokens) - int ngram" using that(1) n by linarith
    ultimately have "scan_windows tbl tokens ngram 0 [] = None"
      unfolding scan_windows_eq by auto
    then show ?thesis using ngram(2) n by (simp add: m Let_def)
  qed
  have hit: "order_loop tbl tokens ngram pen =
      Inr (max base_prob (real (n - ngram + 1) / (\<Sum>i < n - ngram + 1. 1 / p i)
                       * (3 / 10) ^ (n - ngram) * pen))"
    if all: "\<forall>i. i + ngram \<le> n \<longrightarrow> tbl (window tokens ngram i) = Some (p i) \<and> 0 < p i" for pen
  proof -
    have val: "lookup_prob tbl (join [32] (take ngram (drop j tokens))) = p j \<and> 0 < p j"
      if "int j \<le> int (length tokens) - int ngram" for j
    proof -
      from that have "j + ngram \<le> n" using n by linarith
      with all show ?thesis by (simp add: lookup_prob_def window_def)
    qed
    have probs_eq: "map (\<lambda>j. lookup_prob tbl (join [32] (take ngram (drop j tokens)))) [0 ..< n - ngram + 1]
                  = map p [0 ..< n - ngram + 1]"
    proof (rule map_cong[OF refl])
      fix j assume "j \<in> set [0 ..< n - ngram + 1]"
      then have "int j \<le> int (length tokens) - int ngram" using n ngram(2) by auto
      then show "lookup_prob tbl (join [32] (take ngram (drop j tokens))) = p j"
        using val by blast
    qed
    have nz0: "\<forall>j. 0 \<le> j \<and> int j \<le> int (length tokens) - int ngram \<longrightarrow>
              lookup_prob tbl (join [32] (take ngram (drop j tokens))) \<noteq> 0"
      using val by fastforce
    have sw: "scan_windows tbl tokens ngram 0 [] = Some (map p [0 ..< n - ngram + 1])"
      unfolding scan_windows_eq cnt using nz0 probs_eq by simp
    have inv: "foldl (\<lambda>acc cur_prob. acc + 1 / cur_prob) 0 (map p [0 ..< n - ngram + 1])
             = (\<Sum>i < n - ngram + 1. 1 / p i)"
      by (simp add: foldl_inv_sum comp_def sum_list_map_eq_sum_count interv_sum_list_conv_sum_set_nat atLeast0LessThan)
    have "0 < sum_list (map (\<lambda>x. 1 / x) (map p [0 ..< n - ngram + 1]))"
    proof (rule sum_list_pos)
      show "map (\<lambda>x. 1 / x) (map p [0 ..< n - ngram + 1]) \<noteq> []" by simp
      show "\<forall>x \<in> set (map (\<lambda>x. 1 / x) (map p [0 ..< n - ngram + 1])). 0 < x"
      proof
        fix x assume "x \<in> set (map (\<lambda>x. 1 / x) (map p [0 ..< n - ngram + 1]))"
        then have "\<exists>j. j < n - ngram + 1 \<and> x = 1 / p j" by (auto simp: less_Suc_eq)
        then obtain j where "j < n - ngram + 1" "x = 1 / p j" by blast
        moreover from this have "0 < p j" using val[of j] n ngram(2) by auto
        ultimately show "0 < x" by simp
      qed
    qed
    then have nz: "foldl (\<lambda>acc cur_prob. acc + 1 / cur_prob) 0 (map p [0 ..< n - ngram + 1]) \<noteq> 0"
      by (simp add: foldl_inv_sum)
    show ?thesis
      using ngram(2) n sw nz inv by (simp add: m[symmetric] Let_def max.commute del: order_loop.simps(2) add: order_loop.simps(2)[of tbl tokens m pen, folded m])
  qed
  show ?thesis using start miss hit by auto
qed

theorem GetPhraseProb_backoff_witness:
  "GetPhraseProb ab_table (ustr ''a b'') = Inr (1 / 100) \<and>
   GetPhraseProb ab_table (ustr ''a c'') = Inr (1 / 10 ^ 9)"
proof -
  let ?p = "\<lambda>i::nat. if i = 0 then 1 / 2 else (1 / 4 :: real)"
  have t1: "[ustr ''a'', ustr ''b''] = split_on 32 (ustr ''a b'')" by simp
  have t2: "[ustr ''a'', ustr ''c''] = split_on 32 (ustr ''a c'')" by simp
  have n: "(2::nat) = length [ustr ''a'', ustr ''b'']" "(2::nat) = length [ustr ''a'', ustr ''c'']"
    by simp_all
  have g: "(1::nat) \<le> 1" "(1::nat) < 2" "(1::nat) \<le> 3" "(1::nat) = min 3 2 - 1" by simp_all
  have hi1: "\<forall>j. 1 < j \<and> j \<le> min 3 2 \<longrightarrow> order_misses ab_table [ustr ''a'', ustr ''b''] j"
  proof (intro allI impI)
    fix j :: nat assume "1 < j \<and> j \<le> min 3 2"
    then have "j = 2" by simp
    then show "order_misses ab_table [ustr ''a'', ustr ''b''] j"
      by (simp add: order_misses_def lookup_prob_def ab_table_def)
  qed
  have hi2: "\<forall>j. 1 < j \<and> j \<le> min 3 2 \<longrightarrow> order_misses ab_table [ustr ''a'', ustr ''c''] j"
  proof (intro allI impI)
    fix j :: nat assume "1 < j \<and> j \<le> min 3 2"
    then have "j = 2" by simp
    then show "order_misses ab_table [ustr ''a'', ustr ''c''] j"
      by (simp add: order_misses_def lookup_prob_def ab_table_def)
  qed
  have found: "\<forall>i. i + 1 \<le> 2 \<longrightarrow>
      ab_table (window [ustr ''a'', ustr ''b''] 1 i) = Some (?p i) \<and> 0 < ?p i"
  proof (intro allI impI)
    fix i :: nat assume "i + 1 \<le> 2"
    then have "i = 0 \<or> i = 1" by auto
    then show "ab_table (window [ustr ''a'', ustr ''b''] 1 i) = Some (?p i) \<and> 0 < ?p i"
      by (auto simp: window_def ab_table_def)
  qed
  have absent: "\<exists>i. i + 1 \<le> 2 \<and> ab_table (window [ustr ''a'', ustr ''c''] 1 i) = None"
    by (rule exI[of _ 1]) (simp add: window_def ab_table_def)
  have hit: "GetPhraseProb ab_table (ustr ''a b'') = Inr (1 / 100)"
    using GetPhraseProb_backoff[OF t1 n(1) g hi1, of ?p] found
    by (simp add: base_prob_def)
  have miss: "GetPhraseProb ab_table (ustr ''a c'') = Inr (1 / 10 ^ 9)"
    using GetPhraseProb_backoff[OF t2 n(2) g hi2, of ?p] absent
    by (simp add: base_prob_def)
  show ?thesis using hit miss by simp
qed

subsection \<open>Pruning\<close>

lemma insort_key_pairs:
  "insort_key snd (p, f p) (map (\<lambda>p. (p, f p)) ps) = map (\<lambda>p. (p, f p)) (insort_key f p ps)"
  by (induction ps) simp_all

lemma sort_key_pairs:
  "sort_key snd (map (\<lambda>p. (p, f p)) ps) = map (\<lambda>p. (p, f p)) (sort_key f ps)"
  by (induction ps) (simp_all add: insort_key_pairs)

lemma score_phrases_Inr:
  "\<forall>p \<in> set ps. GetPhraseProb tbl p = Inr (f p) \<Longrightarrow>
   score_phrases tbl ps = Inr (map (\<lambda>p. (p, f p)) ps)"
  by (induction ps) simp_all

text \<open>
  A table without records scores every phrase \<open>base_prob\<close>, and the stable sort then
  keeps the extraction order: pruning with an empty table is pruning without a table,
  whichever of the two the truth value of the table object stands for.
\<close>

lemma sort_key_const: "sort_key (\<lambda>x. c) xs = xs"
  by (induction xs) (simp_all add: insort_is_Cons)

lemma order_loop_empty: "order_loop Map.empty tokens m pen = Inr base_prob"
proof (induction m arbitrary: pen)
  case 0
  then show ?case by simp
next
  case (Suc m)
  show ?case
  proof (cases "length tokens \<le> Suc m")
    case True
    then show ?thesis using Suc by (simp add: lookup_prob_def)
  next
    case False
    then have "scan_windows Map.empty tokens (Suc m) 0 [] = None"
      by (subst scan_windows.simps) (simp add: lookup_prob_def)
    then show ?thesis using False Suc by simp
  qed
qed

lemma prune_empty_table: "prune mw (Some Map.empty) phrases = prune mw None phrases"
proof -
  have "\<forall>p \<in> set phrases. GetPhraseProb Map.empty p = Inr ((\<lambda>_. base_prob) p)"
    by (simp add: GetPhraseProb_def order_loop_empty Let_def)
  then have "score_phrases Map.empty phrases = Inr (map (\<lambda>p. (p, base_prob)) phrases)"
    by (rule score_phrases_Inr)
  then show ?thesis
    by (simp add: prune_def sort_key_pairs[where f = "\<lambda>_. base_prob"] comp_def sort_key_const)
qed

text \<open>
  Claim C5: when a sentence yields more than \<open>max_words\<close> phrases (a count, so not
  negative), the phrases fed to the reservoirs are the first \<open>max_words\<close> in extraction
  order if no table is configured, and the first \<open>max_words\<close> of the phrases sorted in
  ascending order of the probability \<open>GetPhraseProb\<close> returns if one is.
\<close>

theorem fed_phrases_first_max_words:
  assumes "int (length phrases) > mw" and "0 \<le> mw"
  shows "fed_phrases mw None phrases = Inr (take (nat mw) phrases) \<and>
         ((\<forall>p \<in> set phrases. GetPhraseProb tbl p = Inr (f p)) \<longrightarrow>
            fed_phrases mw (Some tbl) phrases = Inr (take (nat mw) (sort_key f phrases)))"
proof
  show "fed_phrases mw None phrases = Inr (take (nat mw) phrases)"
    using assms by (simp add: fed_phrases_def prune_def slice_to_def)
  show "(\<forall>p \<in> set phrases. GetPhraseProb tbl p = Inr (f p)) \<longrightarrow>
            fed_phrases mw (Some tbl) phrases = Inr (take (nat mw) (sort_key f phrases))"
  proof
    assume "\<forall>p \<in> set phrases. GetPhraseProb tbl p = Inr (f p)"
    then have "score_phrases tbl phrases = Inr (map (\<lambda>p. (p, f p)) phrases)"
      by (rule score_phrases_Inr)
    then show "fed_phrases mw (Some tbl) phrases = Inr (take (nat mw) (sort_key f phrases))"
      using assms by (simp add: fed_phrases_def prune_def slice_to_def sort_key_pairs comp_def)
  qed
qed

theorem fed_phrases_first_max_words_witness:
  "fed_phrases 1 None [ustr ''a'', ustr ''b''] = Inr [ustr ''a''] \<and>
   fed_phrases 1 (Some ab_table) [ustr ''a'', ustr ''b''] = Inr [ustr ''b'']"
proof -
  have h1: "int (length [ustr ''a'', ustr ''b'']) > 1" by simp
  have h2: "(0::int) \<le> 1" by simp
  have h3: "\<forall>p \<in> set [ustr ''a'', ustr ''b''].
              GetPhraseProb ab_table p = Inr (if p = ustr ''a'' then 1 / 2 else 1 / 4)"
    by (simp add: GetPhraseProb_def lookup_prob_def ab_table_def base_prob_def)
  from fed_phrases_first_max_words[OF h1 h2, of ab_table "\<lambda>p. if p = ustr ''a'' then 1 / 2 else 1 / 4"] h3
  show ?thesis by simp
qed

subsection \<open>Lines\<close>

lemma nat_of_str_of_nat: "nat_of_str (str_of_nat n) = n"
proof (induction n rule: str_of_nat.induct)
  case (1 n)
  show ?case
  proof (cases "n < 10")
    case True
    then show ?thesis by (subst str_of_nat.simps) (simp add: nat_of_str_def)
  next
    case False
    have "nat_of_str (str_of_nat n) = 10 * nat_of_str (str_of_nat (n div 10)) + n mod 10"
      using False by (subst str_of_nat.simps) (simp add: nat_of_str_def)
    also have "\<dots> = n" using "1.IH"[OF False] by simp
    finally show ?thesis .
  qed
qed

lemma line_key_inject: "line_key m = line_key n \<longleftrightarrow> m = n"
proof
  assume "line_key m = line_key n"
  then have "str_of_nat m = str_of_nat n" by (simp add: line_key_def)
  then have "nat_of_str (str_of_nat m) = nat_of_str (str_of_nat n)" by simp
  then show "m = n" by (simp add: nat_of_str_of_nat)
qed simp

lemma score_phrases_total:
  "nonneg_table tbl \<Longrightarrow> \<exists>scored. score_phrases tbl ps = Inr scored"
proof (induction ps)
  case Nil
  then show ?case by simp
next
  case (Cons p ps)
  from GetPhraseProb_total[OF Cons.prems, of p] obtain v where "GetPhraseProb tbl p = Inr v"
    by blast
  with Cons show ?case by auto
qed

lemma fed_phrases_total:
  assumes "dbm_ok dbm"
  shows "\<exists>fed. fed_phrases mw dbm phrases = Inr fed"
proof (cases dbm)
  case None
  then show ?thesis by (simp add: fed_phrases_def prune_def)
next
  case (Some tbl)
  with assms have "nonneg_table tbl" by (simp add: dbm_ok_def)
  from score_phrases_total[OF this, of phrases] obtain scored
    where "score_phrases tbl phrases = Inr scored" by blast
  with Some show ?thesis by (simp add: fed_phrases_def prune_def)
qed

lemma ProcessLine_blank: "strip raw = [] \<Longrightarrow> ProcessLine L cfg s raw = Inr s"
  by (simp add: ProcessLine_def)

lemma ProcessLine_duplicate:
  assumes "sentence_hash_of L raw \<in> sentence_hashes s"
  shows "ProcessLine L cfg s raw = Inr s"
proof (cases "split_on 9 (strip raw)")
  case Nil
  then show ?thesis using split_on_not_Nil by blast
next
  case (Cons field0 rest)
  then show ?thesis using assms
    by (simp add: ProcessLine_def sentence_hash_of_def Let_def)
qed

text \<open>
  Claim C9: a line whose sentence hash is already in the set of seen hashes leaves the
  whole state as it was: nothing is stored, no line id is used, no record of the index
  changes and the generator does not advance.
\<close>

theorem duplicate_line_skipped:
  assumes "sentence_hash_of L raw \<in> sentence_hashes s"
  shows "ProcessLine L cfg s raw = Inr s"
  using assms by (rule ProcessLine_duplicate)

theorem duplicate_line_skipped_witness:
  "ProcessLine ascii_lib scenario_cfg (empty_batch\<lparr>sentence_hashes := {ustr ''the cat sat''}\<rparr>)
     (ustr ''The Cat Sat'' @ [9] @ ustr ''neko'')
   = Inr (empty_batch\<lparr>sentence_hashes := {ustr ''the cat sat''}\<rparr>)"
proof -
  have h: "sentence_hash_of ascii_lib (ustr ''The Cat Sat'' @ [9] @ ustr ''neko'')
             \<in> sentence_hashes (empty_batch\<lparr>sentence_hashes := {ustr ''the cat sat''}\<rparr>)"
    by (simp add: sentence_hash_of_def strip_def isspace_def mod_sentence_of_def sub_curly_def
          quote_neighbour_def is_digit_def ascii_simps)
  from duplicate_line_skipped[OF h] show ?thesis .
qed

lemma ProcessLine_accept:
  assumes "strip raw \<noteq> []" "sentence_hash_of L raw \<notin> sentence_hashes s"
    and "ProcessLine L cfg s raw = Inr s'"
  shows "output_dbm s' = (output_dbm s)(line_key (num_lines s) \<mapsto> strip raw) \<and>
         num_lines s' = num_lines s + 1 \<and>
         sentence_hashes s' = insert (sentence_hash_of L raw) (sentence_hashes s) \<and>
         phrase_prob_dbm s' = phrase_prob_dbm s \<and> focus_keywords s' = focus_keywords s"
proof -
  obtain field0 rest where sp: "split_on 9 (strip raw) = field0 # rest"
    using split_on_not_Nil[of 9 "strip raw"] by (cases "split_on 9 (strip raw)") auto
  show ?thesis using assms sp
    by (auto simp: ProcessLine_def sentence_hash_of_def Let_def
             split: prod.splits sum.splits)
qed

lemma ProcessLine_total:
  assumes "dbm_ok (phrase_prob_dbm s)"
  shows "\<exists>s'. ProcessLine L cfg s raw = Inr s'"
proof -
  obtain field0 rest where sp: "split_on 9 (strip raw) = field0 # rest"
    using split_on_not_Nil[of 9 "strip raw"] by (cases "split_on 9 (strip raw)") auto
  obtain phrases uniq nw where sc:
    "scan_words L (focus_keywords s) (max_ngram cfg)
       (split_on 32 (mod_sentence_of L (strip field0))) ([], {}, num_words s) = (phrases, uniq, nw)"
    by (metis prod_cases3)
  obtain fed where fed: "fed_phrases (max_words cfg) (phrase_prob_dbm s) phrases = Inr fed"
    using fed_phrases_total[OF assms] by blast
  show ?thesis
    unfolding ProcessLine_def Let_def sp
    by (simp add: sc fed split: prod.splits)
qed

lemma strip_decompose:
  "\<exists>a b. raw = a @ strip raw @ b \<and> list_all isspace a \<and> list_all isspace b"
proof -
  let ?a = "takeWhile isspace raw"
  let ?m = "dropWhile isspace raw"
  let ?b = "rev (takeWhile isspace (rev ?m))"
  have "?m = strip raw @ ?b"
    unfolding strip_def by (metis rev_append rev_rev_ident takeWhile_dropWhile_id)
  then have "raw = ?a @ strip raw @ ?b" by (metis takeWhile_dropWhile_id)
  moreover have "list_all isspace ?a" by (simp add: list_all_iff) (meson set_takeWhileD)
  moreover have "list_all isspace ?b" by (simp add: list_all_iff) (meson set_takeWhileD)
  ultimately show ?thesis by blast
qed

text \<open>
  Claim C8, as stated, has the raw line stored byte for byte. The code stores
  \<open>line.strip()\<close>: the line \<open>The cat<TAB>neko<TAB><LF>\<close>, whose third field is empty, is
  stored as \<open>The cat<TAB>neko\<close>, which is the raw line neither with nor without its line
  break.
\<close>

theorem raw_line_counterexample:
  "map_sum id (\<lambda>s. output_dbm s (ustr ''[0]''))
      (ProcessLine ascii_lib scenario_cfg empty_batch (ustr ''The cat'' @ [9] @ ustr ''neko'' @ [9, 10]))
     = Inr (Some (ustr ''The cat'' @ [9] @ ustr ''neko'')) \<and>
   ustr ''The cat'' @ [9] @ ustr ''neko'' \<noteq> ustr ''The cat'' @ [9] @ ustr ''neko'' @ [9, 10] \<and>
   ustr ''The cat'' @ [9] @ ustr ''neko'' \<noteq> ustr ''The cat'' @ [9] @ ustr ''neko'' @ [9]"
  by (simp add: eval_simps ascii_simps scenario_cfg_def empty_batch_def)

text \<open>
  Claim C8, amended: for every accepted line, the value stored under the key of its line
  id is the line with the white space at its two ends removed; between them the line is
  kept as read, tabs and later fields included.
\<close>

theorem accepted_line_stored_stripped:
  assumes "dbm_ok (phrase_prob_dbm s)"
    and "strip raw \<noteq> []" and "sentence_hash_of L raw \<notin> sentence_hashes s"
  shows "\<exists>s'. ProcessLine L cfg s raw = Inr s' \<and>
           output_dbm s' (line_key (num_lines s)) = Some (strip raw) \<and>
           (\<exists>a b. raw = a @ strip raw @ b \<and> list_all isspace a \<and> list_all isspace b)"
proof -
  from ProcessLine_total[OF assms(1)] obtain s' where s': "ProcessLine L cfg s raw = Inr s'"
    by blast
  from ProcessLine_accept[OF assms(2,3) s'] have "output_dbm s' (line_key (num_lines s)) = Some (strip raw)"
    by simp
  with s' strip_decompose[of raw] show ?thesis by blast
qed

theorem accepted_line_stored_stripped_witness:
  "\<exists>s'. ProcessLine ascii_lib scenario_cfg empty_batch (ustr '' a'' @ [9] @ ustr ''b '' @ [10]) = Inr s' \<and>
        output_dbm s' (ustr ''[0]'') = Some (ustr ''a'' @ [9] @ ustr ''b'')"
proof -
  let ?raw = "ustr '' a'' @ [9] @ ustr ''b '' @ [10]"
  have st: "strip ?raw = ustr ''a'' @ [9] @ ustr ''b''" by (simp add: strip_def isspace_def)
  have h1: "dbm_ok (phrase_prob_dbm empty_batch)" by (simp add: dbm_ok_def empty_batch_def)
  have h2: "strip ?raw \<noteq> []" unfolding st by simp
  have h3: "sentence_hash_of ascii_lib ?raw \<notin> sentence_hashes empty_batch"
    by (simp add: empty_batch_def)
  from accepted_line_stored_stripped[OF h1 h2 h3, of scenario_cfg] show ?thesis
    unfolding st by (auto simp: empty_batch_def line_key_def str_of_nat.simps)
qed

lemma ProcessLines_keys:
  assumes "dbm_ok (phrase_prob_dbm s)"
  shows "\<exists>s'. ProcessLines L cfg s raws = Inr s' \<and>
           num_lines s' = num_lines s + length (accepted L (sentence_hashes s) raws) \<and>
           (\<forall>i < length (accepted L (sentence_hashes s) raws).
               output_dbm s' (line_key (num_lines s + i)) = Some (accepted L (sentence_hashes s) raws ! i)) \<and>
           (\<forall>key. key \<notin> line_key ` {num_lines s ..< num_lines s + length (accepted L (sentence_hashes s) raws)}
               \<longrightarrow> output_dbm s' key = output_dbm s key)"
  using assms
proof (induction raws arbitrary: s)
  case Nil
  then show ?case by simp
next
  case (Cons raw raws)
  show ?case
  proof (cases "strip raw = [] \<or> sentence_hash_of L raw \<in> sentence_hashes s")
    case True
    then have "ProcessLine L cfg s raw = Inr s"
      using ProcessLine_blank ProcessLine_duplicate by blast
    moreover have "accepted L (sentence_hashes s) (raw # raws) = accepted L (sentence_hashes s) raws"
      using True by auto
    ultimately show ?thesis using Cons.IH[OF Cons.prems] by simp
  next
    case False
    then have ne: "strip raw \<noteq> []" and new: "sentence_hash_of L raw \<notin> sentence_hashes s" by auto
    from ProcessLine_total[OF Cons.prems] obtain s1 where s1: "ProcessLine L cfg s raw = Inr s1"
      by blast
    note acc = ProcessLine_accept[OF ne new s1]
    let ?acc1 = "accepted L (sentence_hashes s1) raws"
    have ok1: "dbm_ok (phrase_prob_dbm s1)" using acc Cons.prems by simp
    from Cons.IH[OF ok1] obtain s' where
      run: "ProcessLines L cfg s1 raws = Inr s'" and
      cnt: "num_lines s' = num_lines s1 + length ?acc1" and
      vals: "\<forall>i < length ?acc1. output_dbm s' (line_key (num_lines s1 + i)) = Some (?acc1 ! i)" and
      frame: "\<forall>key. key \<notin> line_key ` {num_lines s1 ..< num_lines s1 + length ?acc1}
               \<longrightarrow> output_dbm s' key = output_dbm s1 key"
      by blast
    have accd: "accepted L (sentence_hashes s) (raw # raws) = strip raw # ?acc1"
      using ne new acc by simp
    have n1: "num_lines s1 = Suc (num_lines s)" using acc by simp
    have first: "output_dbm s' (line_key (num_lines s)) = Some (strip raw)"
    proof -
      have "line_key (num_lines s) \<notin> line_key ` {num_lines s1 ..< num_lines s1 + length ?acc1}"
        using n1 by (auto simp: line_key_inject)
      with frame have "output_dbm s' (line_key (num_lines s)) = output_dbm s1 (line_key (num_lines s))"
        by blast
      then show ?thesis using acc by simp
    qed
    have vals': "\<forall>i < length (strip raw # ?acc1).
        output_dbm s' (line_key (num_lines s + i)) = Some ((strip raw # ?acc1) ! i)"
    proof (intro allI impI)
      fix i assume i: "i < length (strip raw # ?acc1)"
      show "output_dbm s' (line_key (num_lines s + i)) = Some ((strip raw # ?acc1) ! i)"
      proof (cases i)
        case 0
        then show ?thesis using first by simp
      next
        case (Suc j)
        then have "j < length ?acc1" using i by simp
        with vals have "output_dbm s' (line_key (num_lines s1 + j)) = Some (?acc1 ! j)" by blast
        then show ?thesis using Suc n1 by simp
      qed
    qed
    have frame': "\<forall>key. key \<notin> line_key ` {num_lines s ..< num_lines s + length (strip raw # ?acc1)}
               \<longrightarrow> output_dbm s' key = output_dbm s key"
    proof (intro allI impI)
      fix key assume k: "key \<notin> line_key ` {num_lines s ..< num_lines s + length (strip raw # ?acc1)}"
      then have k0: "key \<noteq> line_key (num_lines s)" by auto
      have "{num_lines s1 ..< num_lines s1 + length ?acc1}
              \<subseteq> {num_lines s ..< num_lines s + length (strip raw # ?acc1)}"
        using n1 by auto
      with k have "key \<notin> line_key ` {num_lines s1 ..< num_lines s1 + length ?acc1}" by blast
      with frame have "output_dbm s' key = output_dbm s1 key" by blast
      then show "output_dbm s' key = output_dbm s key" using acc k0 by simp
    qed
    show ?thesis
      using s1 run cnt n1 vals' frame' unfolding accd by simp
  qed
qed

text \<open>
  Claim C10: a run stores every accepted line, whatever phrases it yields, under the key
  of its rank among the accepted lines: the keys written are those of 0, 1, 2, ... up
  to the number of accepted lines, without a gap, and blank and duplicate lines use none.
\<close>

theorem line_ids_consecutive:
  assumes "dbm_ok (phrase_prob_dbm s0)" and "output_dbm s0 = Map.empty"
  shows "\<exists>s'. ProcessRecords L cfg s0 input = Inr s' \<and>
           num_lines s' = length (accepted L {} input) \<and>
           (\<forall>i < length (accepted L {} input).
               output_dbm s' (line_key i) = Some (accepted L {} input ! i)) \<and>
           dom (output_dbm s') = line_key ` {..< length (accepted L {} input)}"
proof -
  let ?s = "s0\<lparr>num_lines := 0, num_words := 0, sentence_hashes := {}\<rparr>"
  let ?acc = "accepted L {} input"
  have "dbm_ok (phrase_prob_dbm ?s)" using assms(1) by simp
  from ProcessLines_keys[OF this, of L cfg input] obtain s' where
    run: "ProcessLines L cfg ?s input = Inr s'" and
    cnt: "num_lines s' = length ?acc" and
    vals: "\<forall>i < length ?acc. output_dbm s' (line_key i) = Some (?acc ! i)" and
    frame: "\<forall>key. key \<notin> line_key ` {0 ..< length ?acc} \<longrightarrow> output_dbm s' key = None"
    using assms(2) by auto
  have "dom (output_dbm s') = line_key ` {..< length ?acc}"
  proof (intro set_eqI iffI)
    fix key assume "key \<in> dom (output_dbm s')"
    then have "output_dbm s' key \<noteq> None" by auto
    with frame show "key \<in> line_key ` {..< length ?acc}" by (auto simp: atLeast0LessThan)
  next
    fix key assume "key \<in> line_key ` {..< length ?acc}"
    with vals show "key \<in> dom (output_dbm s')" by auto
  qed
  with run cnt vals show ?thesis by (simp add: ProcessRecords_def)
qed

theorem line_ids_consecutive_witness:
  "\<exists>s'. ProcessRecords ascii_lib scenario_cfg empty_batch
           [ustr ''!!!'', [10], ustr ''a'', ustr ''A'', ustr ''!!!'', ustr ''b''] = Inr s' \<and>
        num_lines s' = 3 \<and>
        output_dbm s' (ustr ''[0]'') = Some (ustr ''!!!'') \<and>
        output_dbm s' (ustr ''[1]'') = Some (ustr ''a'') \<and>
        output_dbm s' (ustr ''[2]'') = Some (ustr ''b'')"
proof -
  let ?input = "[ustr ''!!!'', [10], ustr ''a'', ustr ''A'', ustr ''!!!'', ustr ''b'']"
  have h1: "dbm_ok (phrase_prob_dbm empty_batch)" by (simp add: dbm_ok_def empty_batch_def)
  have h2: "output_dbm empty_batch = Map.empty" by (simp add: empty_batch_def)
  have acc: "accepted ascii_lib {} ?input = [ustr ''!!!'', ustr ''a'', ustr ''b'']"
    by (simp add: sentence_hash_of_def strip_def isspace_def mod_sentence_of_def sub_curly_def
          quote_neighbour_def is_digit_def ascii_simps)
  from line_ids_consecutive[OF h1 h2, of ascii_lib scenario_cfg ?input]
  obtain s' where run: "ProcessRecords ascii_lib scenario_cfg empty_batch ?input = Inr s'"
    and cnt: "num_lines s' = 3"
    and vals: "\<forall>i < 3. output_dbm s' (line_key i) = Some ([ustr ''!!!'', ustr ''a'', ustr ''b''] ! i)"
    unfolding acc by auto
  have "output_dbm s' (line_key 0) = Some (ustr ''!!!'')"
       "output_dbm s' (line_key 1) = Some (ustr ''a'')"
       "output_dbm s' (line_key 2) = Some (ustr ''b'')"
    using vals by simp_all
  then show ?thesis using run cnt by (auto simp: line_key_def str_of_nat.simps)
qed

subsection \<open>The two sentences about the cat\<close>

text \<open>
  Claim C3, as stated, has the two lines normalise to the same hash, one line stored and
  each of the five phrases counted once. The normaliser folds the case and rewrites
  quotation marks; it keeps the full stop. With a hash that tells \<open>the cat sat.\<close> from
  \<open>the cat sat\<close> both lines are stored and each phrase is counted twice.
\<close>

theorem cat_sat_counterexample:
  "mod_sentence_of ascii_lib (ustr ''The cat sat.'') \<noteq> mod_sentence_of ascii_lib (ustr ''the cat sat'') \<and>
   map_sum id (\<lambda>s. (num_lines s, map (\<lambda>phrase. word_index s (ustr phrase))
                                    [''the'', ''cat'', ''sat'', ''the cat'', ''cat sat'']))
     (ProcessRecords ascii_lib scenario_cfg empty_batch scenario_lines)
   = Inr (2, [Some [2, 0, 1], Some [2, 0, 1], Some [2, 0, 1], Some [2, 0, 1], Some [2, 0, 1]])"
  by (simp add: eval_simps ascii_simps scenario_cfg_def
        scenario_lines_def empty_batch_def)

text \<open>
  Claim C3, amended: for these two lines, with \<open>max_ngram = 2\<close>, no vocabulary and room
  for five phrases and two samples, the first fields normalise to \<open>the cat sat.\<close> and
  \<open>the cat sat\<close>; whenever the hash tells the two apart, both lines are stored, under
  \<open>[0]\<close> and \<open>[1]\<close>, and the records of \<open>the\<close>, \<open>cat\<close>, \<open>sat\<close>, \<open>the cat\<close> and \<open>cat sat\<close>
  each hold the count 2 and the samples 0 and 1.
\<close>

theorem cat_sat_lines_both_stored:
  assumes lower: "lib_lower L (ustr ''The cat sat.'') = ustr ''the cat sat.''"
                 "lib_lower L (ustr ''the cat sat'') = ustr ''the cat sat''"
    and latin: "\<forall>c < 128. lib_Latin L c = ascii_Latin c"
    and hash: "lib_PrimaryHash L (ustr ''the cat sat.'') \<noteq> lib_PrimaryHash L (ustr ''the cat sat'')"
    and cfg: "max_ngram cfg = 2" "5 \<le> max_words cfg" "2 \<le> max_samples cfg"
    and s0: "focus_keywords s0 = {}" "word_index s0 = Map.empty" "output_dbm s0 = Map.empty"
  shows "mod_sentence_of L (ustr ''The cat sat.'') = ustr ''the cat sat.'' \<and>
         mod_sentence_of L (ustr ''the cat sat'') = ustr ''the cat sat'' \<and>
         (\<exists>s. ProcessRecords L cfg s0 scenario_lines = Inr s \<and> num_lines s = 2 \<and>
              output_dbm s (ustr ''[0]'') = Some (scenario_lines ! 0) \<and>
              output_dbm s (ustr ''[1]'') = Some (scenario_lines ! 1) \<and>
              word_index s (ustr ''the'') = Some [2, 0, 1] \<and>
              word_index s (ustr ''cat'') = Some [2, 0, 1] \<and>
              word_index s (ustr ''sat'') = Some [2, 0, 1] \<and>
              word_index s (ustr ''the cat'') = Some [2, 0, 1] \<and>
              word_index s (ustr ''cat sat'') = Some [2, 0, 1])"
proof -
  have lat: "lib_Latin L c = ascii_Latin c" if "c < 128" for c using latin that by blast
  have n1: "mod_sentence_of L (ustr ''The cat sat.'') = ustr ''the cat sat.''"
    by (simp add: mod_sentence_of_def lower[simplified] sub_curly_def quote_neighbour_def is_digit_def lat ascii_Latin_def)
  have n2: "mod_sentence_of L (ustr ''the cat sat'') = ustr ''the cat sat''"
    by (simp add: mod_sentence_of_def lower[simplified] sub_curly_def quote_neighbour_def is_digit_def lat ascii_Latin_def)
  have mw: "\<not> 5 > max_words cfg" "\<not> 3 > max_words cfg" "0 \<le> max_words cfg" "5 \<le> nat (max_words cfg)"
    using cfg(2) by auto
  have ms: "2 \<le> max_samples cfg" "3 \<le> max_samples cfg \<or> \<not> 3 \<le> max_samples cfg" using cfg(3) by auto
  have run: "\<exists>s. ProcessRecords L cfg s0 scenario_lines = Inr s \<and> num_lines s = 2 \<and>
              output_dbm s (ustr ''[0]'') = Some (scenario_lines ! 0) \<and>
              output_dbm s (ustr ''[1]'') = Some (scenario_lines ! 1) \<and>
              word_index s (ustr ''the'') = Some [2, 0, 1] \<and>
              word_index s (ustr ''cat'') = Some [2, 0, 1] \<and>
              word_index s (ustr ''sat'') = Some [2, 0, 1] \<and>
              word_index s (ustr ''the cat'') = Some [2, 0, 1] \<and>
              word_index s (ustr ''cat sat'') = Some [2, 0, 1]"
    using hash mw cfg(3)
    by (simp add: ProcessRecords_def ProcessLine_def strip_def isspace_def scenario_lines_def
          n1[simplified] n2[simplified] word_char_def strip_head_def strip_tail_def has_alnum_def
          is_digit_def lat ascii_Latin_def fed_phrases_def prune_def slice_to_def line_key_def
          str_of_nat.simps Update_def Let_def cfg(1) s0)
  show ?thesis using n1 n2 run by blast
qed

theorem cat_sat_lines_both_stored_witness:
  "\<exists>s. ProcessRecords ascii_lib scenario_cfg empty_batch scenario_lines = Inr s \<and> num_lines s = 2 \<and>
       output_dbm s (ustr ''[0]'') = Some (ustr ''The cat sat.'' @ [9] @ ustr ''neko ga suwat'') \<and>
       output_dbm s (ustr ''[1]'') = Some (ustr ''the cat sat'' @ [9] @ ustr ''neko ga suwatta'') \<and>
       word_index s (ustr ''cat sat'') = Some [2, 0, 1]"
proof -
  have h1: "lib_lower ascii_lib (ustr ''The cat sat.'') = ustr ''the cat sat.''"
    and h2: "lib_lower ascii_lib (ustr ''the cat sat'') = ustr ''the cat sat''"
    by (simp_all add: ascii_lib_def ascii_lower_def)
  have h3: "\<forall>c < 128. lib_Latin ascii_lib c = ascii_Latin c" by (simp add: ascii_lib_def)
  have h4: "lib_PrimaryHash ascii_lib (ustr ''the cat sat.'') \<noteq> lib_PrimaryHash ascii_lib (ustr ''the cat sat'')"
    by (simp add: ascii_lib_def)
  have h5: "max_ngram scenario_cfg = 2" "5 \<le> max_words scenario_cfg" "2 \<le> max_samples scenario_cfg"
    by (simp_all add: scenario_cfg_def)
  have h6: "focus_keywords empty_batch = {}" "word_index empty_batch = Map.empty"
    "output_dbm empty_batch = Map.empty"
    by (simp_all add: empty_batch_def)
  from cat_sat_lines_both_stored[OF h1 h2 h3 h4 h5 h6] show ?thesis
    by (auto simp: scenario_lines_def)
qed

subsection \<open>Determinism\<close>

text \<open>
  Claim C4: the final state of a run, its output store included, is the same for any two
  runs with the same configuration, files and input, whatever the clock shows: the
  generator starts from \<open>random.Random(19780211)\<close> and the readings of the clock reach
  only the log.
\<close>

theorem Run_independent_of_clock:
  "map_sum id fst (Run L cfg (w\<lparr>clock := c\<rparr>)) = map_sum id fst (Run L cfg w)"
  by (simp add: Run_def Let_def split: option.splits sum.splits)

theorem Run_independent_of_clock_witness:
  "map_sum id (\<lambda>r. map (\<lambda>key. output_dbm (fst r) (ustr key)) [''[0]'', ''the'', ''cat sat''])
     (Run ascii_lib scenario_cfg (scenario_world\<lparr>clock := \<lambda>n. 2 * real n + 7\<rparr>))
   = Inr [Some (ustr ''The cat sat.'' @ [9] @ ustr ''neko ga suwat''),
          Some (ustr ''0,1''), Some (ustr ''0,1'')]"
proof -
  let ?g = "\<lambda>s :: (nat list, ustring) batch.
              map (\<lambda>key. output_dbm s (ustr key)) [''[0]'', ''the'', ''cat sat'']"
  let ?w = "scenario_world\<lparr>clock := \<lambda>n. 2 * real n + 7\<rparr>"
  have split: "map_sum id (\<lambda>r. ?g (fst r)) x = map_sum id ?g (map_sum id fst x)"
    for x :: "error + ((nat list, ustring) batch \<times> real list)"
    by (cases x) simp_all
  have same: "map_sum id fst (Run ascii_lib scenario_cfg ?w)
            = map_sum id fst (Run ascii_lib scenario_cfg scenario_world)"
    by (rule Run_independent_of_clock)
  have run: "map_sum id (\<lambda>r. ?g (fst r)) (Run ascii_lib scenario_cfg scenario_world)
     = Inr [Some (ustr ''The cat sat.'' @ [9] @ ustr ''neko ga suwat''),
            Some (ustr ''0,1''), Some (ustr ''0,1'')]"
    by (simp add: Run_def OutputIndex_def index_value_def scenario_world_def eval_simps ascii_simps
          scenario_cfg_def scenario_lines_def)
  have "map_sum id (\<lambda>r. ?g (fst r)) (Run ascii_lib scenario_cfg ?w)
      = map_sum id ?g (map_sum id fst (Run ascii_lib scenario_cfg ?w))"
    by (rule split)
  also have "\<dots> = map_sum id ?g (map_sum id fst (Run ascii_lib scenario_cfg scenario_world))"
    by (simp only: same)
  also have "\<dots> = map_sum id (\<lambda>r. ?g (fst r)) (Run ascii_lib scenario_cfg scenario_world)"
    by (rule split[symmetric])
  finally show ?thesis by (simp only: run)
qed

end
